theory Spec2Isabelle
  imports Complex_Main
begin

section \<open>Data model of \<open>blockchain.py\<close>\<close>

text \<open>
  The ledger of \<open>src/blockchain.py\<close>: the class \<open>Blockchain\<close> with its chain, its pool of
  pending transactions and its peer set, and the \<open>/mine\<close> route. Python exceptions are
  values of \<open>error\<close>; an operation that may raise returns \<open>error + 'a\<close>.
\<close>

datatype error = IndexError | ValueError | ConnectionError | KeyError | TypeError | JSONDecodeError

text \<open>
  The argument \<open>previous_hash\<close> of \<open>new_block\<close> is \<open>None\<close> by default, the integer \<open>1\<close> for
  the genesis block and a hex digest otherwise; the field of a block holds what was passed.
\<close>

datatype pyval = NoneVal | IntVal int | StrVal string

text \<open>Python truthiness, as the operator \<open>or\<close> tests it.\<close>

fun truthy :: "pyval \<Rightarrow> bool" where
  "truthy NoneVal = False"
| "truthy (IntVal i) = (i \<noteq> 0)"
| "truthy (StrVal s) = (s \<noteq> [])"

record transaction =
  sender :: string
  recipient :: string
  amount :: int

text \<open>
  A block is the dictionary built by \<open>new_block\<close>. The timestamp is the float returned by
  \<open>time()\<close>; a finite float is a rational number.
\<close>

record block =
  index :: int
  timestamp :: rat
  transactions :: "transaction list"
  proof' :: int
  previous_hash :: pyval

record blockchain =
  chain :: "block list"
  current_transactions :: "transaction list"
  nodes :: "string set"

text \<open>
  The library functions the class calls and this development does not define:
  \<open>hashlib.sha256(s.encode()).hexdigest()\<close>, \<open>json.dumps(block, sort_keys = True)\<close>, and the
  checks of \<open>urllib.parse\<close> on a bracketed host and on a netloc outside ASCII.
\<close>

record pylib =
  sha256_hexdigest :: "string \<Rightarrow> string"
  json_dumps :: "block \<Rightarrow> string"
  netloc_ok :: "string \<Rightarrow> bool"

section \<open>Hashing and the proof of work\<close>

text \<open>\<open>str\<close> of a Python integer, as an f-string renders it: decimal, with a sign.\<close>

fun str_nat :: "nat \<Rightarrow> string" where
  "str_nat n = (if n < 10 then [''0123456789'' ! n]
                else str_nat (n div 10) @ [''0123456789'' ! (n mod 10)])"

declare str_nat.simps [simp del]

definition str_int :: "int \<Rightarrow> string" where
  "str_int i = (if i < 0 then CHR ''-'' # str_nat (nat (- i)) else str_nat (nat i))"

definition hash :: "pylib \<Rightarrow> block \<Rightarrow> string" where
  "hash L b = sha256_hexdigest L (json_dumps L b)"

definition valid_proof :: "pylib \<Rightarrow> int \<Rightarrow> int \<Rightarrow> string \<Rightarrow> bool" where
  "valid_proof L last_proof pf last_hash =
     (let guess = str_int last_proof @ str_int pf @ last_hash;
          guess_hash = sha256_hexdigest L guess
      in take 6 guess_hash = ''000000'')"

text \<open>
  The loop of \<open>proof_of_work\<close> has no bound: it is a partial function, and \<open>None\<close> is the
  search that never ends.
\<close>

partial_function (option) proof_of_work_loop :: "pylib \<Rightarrow> int \<Rightarrow> string \<Rightarrow> int \<Rightarrow> int option" where
  "proof_of_work_loop L last_proof last_hash pf =
     (if valid_proof L last_proof pf last_hash = False
      then proof_of_work_loop L last_proof last_hash (pf + 1)
      else Some pf)"

definition proof_of_work :: "pylib \<Rightarrow> block \<Rightarrow> int option" where
  "proof_of_work L last_blk =
     (let last_proof = proof' last_blk;
          last_hash = hash L last_blk
      in proof_of_work_loop L last_proof last_hash 0)"

section \<open>The ledger\<close>

text \<open>\<open>self.chain[-1]\<close>, which raises on an empty list.\<close>

definition last_block :: "blockchain \<Rightarrow> error + block" where
  "last_block s = (if chain s = [] then Inl IndexError else Inr (last (chain s)))"

text \<open>
  \<open>new_block\<close>: the dictionary is built first, and \<open>previous_hash or self.hash(self.chain[-1])\<close>
  reads the last block only when the argument is falsy. The clock is an input.
\<close>

definition new_block :: "pylib \<Rightarrow> rat \<Rightarrow> int \<Rightarrow> pyval \<Rightarrow> blockchain \<Rightarrow> error + block \<times> blockchain" where
  "new_block L now pf prev s =
     (case (if truthy prev then Inr prev
            else (case last_block s of Inl e \<Rightarrow> Inl e | Inr lb \<Rightarrow> Inr (StrVal (hash L lb)))) of
        Inl e \<Rightarrow> Inl e
      | Inr ph \<Rightarrow>
          let b = \<lparr>index = int (length (chain s)) + 1,
                   timestamp = now,
                   transactions = current_transactions s,
                   proof' = pf,
                   previous_hash = ph\<rparr>
          in Inr (b, s\<lparr>current_transactions := [], chain := chain s @ [b]\<rparr>))"

text \<open>\<open>__init__\<close>: three empty containers, then the genesis block.\<close>

definition init :: "pylib \<Rightarrow> rat \<Rightarrow> error + blockchain" where
  "init L now =
     (case new_block L now 100 (IntVal 1) \<lparr>chain = [], current_transactions = [], nodes = {}\<rparr> of
        Inl e \<Rightarrow> Inl e
      | Inr (b, s) \<Rightarrow> Inr s)"

text \<open>
  \<open>new_transaction\<close> appends before it reads the last block, so the pool is changed even
  when the read raises.
\<close>

definition new_transaction :: "string \<Rightarrow> string \<Rightarrow> int \<Rightarrow> blockchain \<Rightarrow> (error + int) \<times> blockchain" where
  "new_transaction sndr rcpt amt s =
     (let s1 = s\<lparr>current_transactions :=
                   current_transactions s @ [\<lparr>sender = sndr, recipient = rcpt, amount = amt\<rparr>]\<rparr>
      in (case last_block s1 of Inl e \<Rightarrow> (Inl e, s1) | Inr lb \<Rightarrow> (Inr (index lb + 1), s1)))"

text \<open>
  The route \<open>/mine\<close>: the proof is searched on the last block, the reward is submitted, and
  the block is committed with the hash of that last block.
\<close>

definition mine :: "pylib \<Rightarrow> string \<Rightarrow> rat \<Rightarrow> blockchain \<Rightarrow> (error + block \<times> blockchain) option" where
  "mine L node_identifier now s =
     (case last_block s of
        Inl e \<Rightarrow> Some (Inl e)
      | Inr lb \<Rightarrow>
          (case proof_of_work L lb of
             None \<Rightarrow> None
           | Some pf \<Rightarrow>
               (case new_transaction ''0'' node_identifier 1 s of
                  (Inl e, s1) \<Rightarrow> Some (Inl e)
                | (Inr i, s1) \<Rightarrow> Some (new_block L now pf (StrVal (hash L lb)) s1))))"

section \<open>Validation of a chain\<close>

text \<open>
  The loop of \<open>valid_chain\<close>, with its two variables \<open>last_block\<close> and \<open>current_index\<close>; the
  three \<open>print\<close> calls write to the standard output only and are left out.
\<close>

function valid_chain_loop :: "pylib \<Rightarrow> block list \<Rightarrow> block \<Rightarrow> nat \<Rightarrow> bool" where
  "valid_chain_loop L chn last_blk current_index =
     (if current_index < length chn then
        (let blk = chn ! current_index;
             last_block_hash = hash L last_blk
         in if previous_hash blk \<noteq> StrVal last_block_hash then False
            else if \<not> valid_proof L (proof' last_blk) (proof' blk) last_block_hash then False
            else valid_chain_loop L chn blk (current_index + 1))
      else True)"
  by pat_completeness auto
termination
  by (relation "measure (\<lambda>(L, chn, last_blk, current_index). length chn - current_index)") auto

declare valid_chain_loop.simps [simp del]

text \<open>\<open>valid_chain\<close> reads \<open>chain[0]\<close> before the loop.\<close>

definition valid_chain :: "pylib \<Rightarrow> block list \<Rightarrow> error + bool" where
  "valid_chain L chn =
     (case chn of
        [] \<Rightarrow> Inl IndexError
      | b0 # rest \<Rightarrow> Inr (valid_chain_loop L chn b0 1))"

section \<open>Consensus\<close>

text \<open>
  What \<open>requests.get\<close> gives for a peer: it raises when the peer cannot be reached, and
  otherwise returns a response with a status code and a body, of which \<open>resolve_conflicts\<close>
  reads the fields \<open>length\<close> and \<open>chain\<close>, and only under status 200. A body is
  \<open>Response\<close> when it is a JSON object with an integer \<open>length\<close> and a \<open>chain\<close> that
  is a list of blocks, each a dictionary with the five keys of \<open>new_block\<close>. A body is
  \<open>Malformed\<close>, with the exception raised, when reading the two fields and comparing the
  length raises before \<open>valid_chain\<close> is called: \<open>response.json()\<close> on a text that is not
  JSON, \<open>["length"]\<close> or \<open>["chain"]\<close> on a value without the key, \<open>length > max_length\<close>
  on a length that is not a number. A body with a numeric length whose \<open>chain\<close> is not a
  list of such blocks is not represented.
\<close>

datatype response =
    Response (status_code: int) (json_length: int) (json_chain: "block list")
  | Malformed (status_code: int) (raised: error)

type_synonym requests_get = "string \<Rightarrow> error + response"

text \<open>The address \<open>resolve_conflicts\<close> fetches for a peer, \<open>f"http://{node}/chain"\<close>.\<close>

definition peer_url :: "string \<Rightarrow> string" where
  "peer_url node = ''http://'' @ node @ ''/chain''"

text \<open>
  The \<open>for\<close> loop of \<open>resolve_conflicts\<close> over the peers, in the order in which the set is
  iterated, with its two variables \<open>max_length\<close> and \<open>new_chain\<close>. \<open>valid_chain\<close> is called
  only when the reported length is greater, as \<open>and\<close> evaluates.
\<close>

fun resolve_loop :: "pylib \<Rightarrow> requests_get \<Rightarrow> string list \<Rightarrow> int \<Rightarrow> block list option
    \<Rightarrow> error + int \<times> block list option" where
  "resolve_loop L get [] max_length new_chain = Inr (max_length, new_chain)"
| "resolve_loop L get (node # rest) max_length new_chain =
     (case get (peer_url node) of
        Inl e \<Rightarrow> Inl e
      | Inr resp \<Rightarrow>
          if status_code resp = 200 then
            (case resp of
               Malformed st e \<Rightarrow> Inl e
             | Response st len chn \<Rightarrow>
                 if len > max_length then
                   (case valid_chain L chn of
                      Inl e \<Rightarrow> Inl e
                    | Inr ok \<Rightarrow>
                        if ok then resolve_loop L get rest len (Some chn)
                        else resolve_loop L get rest max_length new_chain)
                 else resolve_loop L get rest max_length new_chain)
          else resolve_loop L get rest max_length new_chain)"

text \<open>
  \<open>resolve_conflicts\<close>; \<open>neighbours\<close> lists \<open>self.nodes\<close> in iteration order. The final test
  \<open>if new_chain\<close> is false for \<open>None\<close> and for the empty list.
\<close>

definition resolve_conflicts :: "pylib \<Rightarrow> requests_get \<Rightarrow> string list \<Rightarrow> blockchain
    \<Rightarrow> error + bool \<times> blockchain" where
  "resolve_conflicts L get neighbours s =
     (case resolve_loop L get neighbours (int (length (chain s))) None of
        Inl e \<Rightarrow> Inl e
      | Inr (max_length, new_chain) \<Rightarrow>
          (case new_chain of
             None \<Rightarrow> Inr (False, s)
           | Some c \<Rightarrow> if c \<noteq> [] then Inr (True, s\<lparr>chain := c\<rparr>) else Inr (False, s)))"

section \<open>Peer registration\<close>

text \<open>
  \<open>urllib.parse.urlparse\<close> of CPython 3.11 and 3.12, on strings of 8-bit characters:
  \<open>urlsplit\<close> followed by the split of the parameters. The two checks that need the
  \<open>ipaddress\<close> and \<open>unicodedata\<close> modules are the library's \<open>netloc_ok\<close>.
\<close>

record parse_result =
  scheme :: string
  netloc :: string
  path :: string
  params :: string
  query :: string
  fragment :: string

definition scheme_chars :: string where
  "scheme_chars = ''abcdefghijklmnopqrstuvwxyzABCDEFGHIJKLMNOPQRSTUVWXYZ0123456789+-.''"

definition uses_params :: "string list" where
  "uses_params = ['''', ''ftp'', ''hdl'', ''prospero'', ''http'', ''imap'', ''https'', ''shttp'',
                  ''rtsp'', ''rtsps'', ''rtspu'', ''sip'', ''sips'', ''mms'', ''sftp'', ''tel'']"

definition isascii :: "char \<Rightarrow> bool" where
  "isascii c = ((of_char c :: nat) < 128)"

definition ascii_alpha :: "char \<Rightarrow> bool" where
  "ascii_alpha c = (c \<in> set ''abcdefghijklmnopqrstuvwxyzABCDEFGHIJKLMNOPQRSTUVWXYZ'')"

definition lower :: "char \<Rightarrow> char" where
  "lower c = (case map_of (zip ''ABCDEFGHIJKLMNOPQRSTUVWXYZ'' ''abcdefghijklmnopqrstuvwxyz'') c of
                Some d \<Rightarrow> d
              | None \<Rightarrow> c)"

text \<open>\<open>s.split(c, 1)\<close> when \<open>c\<close> is in \<open>s\<close>: the text before the first \<open>c\<close> and the text after it.\<close>

definition split1 :: "char \<Rightarrow> string \<Rightarrow> string \<times> string" where
  "split1 c s = (takeWhile (\<lambda>x. x \<noteq> c) s, tl (dropWhile (\<lambda>x. x \<noteq> c) s))"

text \<open>
  The steps of \<open>urlsplit\<close>, in its order: leading control characters and spaces are
  stripped and tabs and line breaks removed; a scheme is split off when the text before the
  first colon starts with an ASCII letter and has scheme characters only; a netloc is read
  after a leading \<open>//\<close> up to the first of \<open>/\<close>, \<open>?\<close>, \<open>#\<close>; then the fragment and the
  query are cut.
\<close>

definition clean_url :: "string \<Rightarrow> string" where
  "clean_url url =
     filter (\<lambda>c. c \<notin> {CHR 0x09, CHR 0x0D, CHR 0x0A}) (dropWhile (\<lambda>c. (of_char c :: nat) \<le> 32) url)"

definition split_scheme :: "string \<Rightarrow> string \<times> string" where
  "split_scheme url =
     (let pre = takeWhile (\<lambda>c. c \<noteq> CHR '':'') url
      in if CHR '':'' \<in> set url \<and> pre \<noteq> [] \<and> isascii (hd url) \<and> ascii_alpha (hd url)
            \<and> list_all (\<lambda>c. c \<in> set scheme_chars) pre
         then (map lower pre, snd (split1 CHR '':'' url))
         else ([], url))"

definition splitnetloc :: "string \<Rightarrow> string \<times> string" where
  "splitnetloc url =
     (takeWhile (\<lambda>c. c \<notin> set ''/?#'') (drop 2 url), dropWhile (\<lambda>c. c \<notin> set ''/?#'') (drop 2 url))"

definition split_netloc :: "string \<Rightarrow> bool \<times> string \<times> string" where
  "split_netloc url = (if take 2 url = ''//'' then (True, splitnetloc url) else (False, [], url))"

definition brackets_ok :: "pylib \<Rightarrow> string \<Rightarrow> bool" where
  "brackets_ok L nloc =
     (if (CHR ''['' \<in> set nloc \<and> CHR '']'' \<notin> set nloc) \<or> (CHR '']'' \<in> set nloc \<and> CHR ''['' \<notin> set nloc)
      then False
      else if CHR ''['' \<in> set nloc \<and> CHR '']'' \<in> set nloc then netloc_ok L nloc
      else True)"

definition checknetloc :: "pylib \<Rightarrow> string \<Rightarrow> bool" where
  "checknetloc L nloc = (if nloc = [] \<or> list_all isascii nloc then True else netloc_ok L nloc)"

definition split_opt :: "char \<Rightarrow> string \<Rightarrow> string \<times> string" where
  "split_opt c url = (if c \<in> set url then split1 c url else (url, []))"

definition urlsplit :: "pylib \<Rightarrow> string \<Rightarrow> error + string \<times> string \<times> string \<times> string \<times> string" where
  "urlsplit L url =
     (case split_scheme (clean_url url) of (schm, url3) \<Rightarrow>
      case split_netloc url3 of (has_netloc, nloc, url4) \<Rightarrow>
        if has_netloc \<and> \<not> brackets_ok L nloc then Inl ValueError
        else
          (case split_opt CHR ''#'' url4 of (url5, frag) \<Rightarrow>
           case split_opt CHR ''?'' url5 of (url6, qry) \<Rightarrow>
             if \<not> checknetloc L nloc then Inl ValueError
             else Inr (schm, nloc, url6, qry, frag)))"

text \<open>
  \<open>_splitparams\<close>: the first \<open>;\<close> at or after the last \<open>/\<close>, or the first \<open>;\<close> of a text
  without \<open>/\<close>.
\<close>

definition splitparams :: "string \<Rightarrow> string \<times> string" where
  "splitparams url =
     (if CHR ''/'' \<in> set url then
        (let seg = rev (takeWhile (\<lambda>c. c \<noteq> CHR ''/'') (rev url));
             dir = take (length url - length seg) url
         in if CHR '';'' \<in> set seg then (dir @ fst (split1 CHR '';'' seg), snd (split1 CHR '';'' seg))
            else (url, []))
      else split1 CHR '';'' url)"

definition urlparse :: "pylib \<Rightarrow> string \<Rightarrow> error + parse_result" where
  "urlparse L url =
     (case urlsplit L url of
        Inl e \<Rightarrow> Inl e
      | Inr (schm, nloc, u, qry, frag) \<Rightarrow>
          if schm \<in> set uses_params \<and> CHR '';'' \<in> set u
          then Inr \<lparr>scheme = schm, netloc = nloc, path = fst (splitparams u),
                    params = snd (splitparams u), query = qry, fragment = frag\<rparr>
          else Inr \<lparr>scheme = schm, netloc = nloc, path = u, params = [], query = qry,
                    fragment = frag\<rparr>)"

text \<open>\<open>register_node\<close>: the netloc if there is one, else the path if there is one, else an error.\<close>

definition register_node :: "pylib \<Rightarrow> string \<Rightarrow> blockchain \<Rightarrow> error + blockchain" where
  "register_node L address s =
     (case urlparse L address of
        Inl e \<Rightarrow> Inl e
      | Inr parsed_url \<Rightarrow>
          if netloc parsed_url \<noteq> [] then Inr (s\<lparr>nodes := insert (netloc parsed_url) (nodes s)\<rparr>)
          else if path parsed_url \<noteq> [] then Inr (s\<lparr>nodes := insert (path parsed_url) (nodes s)\<rparr>)
          else Inl ValueError)"

section \<open>Reachable ledgers\<close>

text \<open>
  The states a node goes through: construction, then any sequence of submitted
  transactions, mined blocks, registered peers and consensus passes that return.
\<close>

inductive reachable :: "pylib \<Rightarrow> blockchain \<Rightarrow> bool" for L :: pylib where
  created: "init L now = Inr s \<Longrightarrow> reachable L s"
| submitted: "reachable L s \<Longrightarrow> new_transaction sndr rcpt amt s = (r, s') \<Longrightarrow> reachable L s'"
| mined: "reachable L s \<Longrightarrow> mine L node_identifier now s = Some (Inr (b, s')) \<Longrightarrow> reachable L s'"
| registered: "reachable L s \<Longrightarrow> register_node L address s = Inr s' \<Longrightarrow> reachable L s'"
| resolved: "reachable L s \<Longrightarrow> set neighbours = nodes s \<Longrightarrow> distinct neighbours
    \<Longrightarrow> resolve_conflicts L get neighbours s = Inr (replaced, s') \<Longrightarrow> reachable L s'"

section \<open>Predicates of the properties\<close>

text \<open>
  The two checks \<open>valid_chain\<close> makes on a block and its predecessor: the stored hash and
  the proof of work.
\<close>

definition linked :: "pylib \<Rightarrow> block \<Rightarrow> block \<Rightarrow> bool" where
  "linked L prev blk =
     (previous_hash blk = StrVal (hash L prev)
      \<and> valid_proof L (proof' prev) (proof' blk) (hash L prev))"

text \<open>
  Peer \<open>node\<close> offers the chain \<open>c\<close> over the length \<open>m\<close>: its fetch returns status 200
  and a well-formed body with a reported length greater than \<open>m\<close> and the chain \<open>c\<close>, which
  \<open>valid_chain\<close> accepts.
\<close>

definition offers :: "pylib \<Rightarrow> requests_get \<Rightarrow> int \<Rightarrow> string \<Rightarrow> block list \<Rightarrow> bool" where
  "offers L get m node c =
     (case get (peer_url node) of
        Inl e \<Rightarrow> False
      | Inr (Malformed st e) \<Rightarrow> False
      | Inr (Response st len chn) \<Rightarrow>
          st = 200 \<and> m < len \<and> chn = c \<and> valid_chain L c = Inr True)"


section \<open>A small library instance\<close>

text \<open>
  A stand-in for the library, small enough to run the ledger on concrete inputs: the digest
  has six leading zeros exactly when the text contains the digit 2, and a block is rendered
  as its index.
\<close>

definition small_lib :: pylib where
  "small_lib = \<lparr>sha256_hexdigest = (\<lambda>s. if CHR ''2'' \<in> set s then ''000000d4'' else ''9f86d081''),
                json_dumps = (\<lambda>b. str_int (index b)),
                netloc_ok = (\<lambda>n. True)\<rparr>"

text \<open>The genesis block and the ledger of a node constructed at time 0.\<close>

definition genesis :: block where
  "genesis = \<lparr>index = 1, timestamp = 0, transactions = [], proof' = 100, previous_hash = IntVal 1\<rparr>"

definition node0 :: blockchain where
  "node0 = \<lparr>chain = [genesis], current_transactions = [], nodes = {}\<rparr>"

text \<open>The block a node named \<open>n0\<close> mines on the genesis block at time 0, and its ledger then.\<close>

definition block1 :: block where
  "block1 = \<lparr>index = 2, timestamp = 0,
              transactions = [\<lparr>sender = ''0'', recipient = ''n0'', amount = 1\<rparr>],
              proof' = 2, previous_hash = StrVal ''9f86d081''\<rparr>"

definition node1 :: blockchain where
  "node1 = \<lparr>chain = [genesis, block1], current_transactions = [], nodes = {}\<rparr>"



definition overstating_peer :: requests_get where
  "overstating_peer url = Inr (Response 200 5 [genesis])"



definition keyless_peer :: requests_get where
  "keyless_peer url = Inr (Malformed 200 KeyError)"


section \<open>Genesis\<close>

lemma init_eq:
  "init L now = Inr \<lparr>chain = [\<lparr>index = 1, timestamp = now, transactions = [], proof' = 100,
                               previous_hash = IntVal 1\<rparr>],
                     current_transactions = [], nodes = {}\<rparr>"
  by (simp add: init_def new_block_def Let_def)

text \<open>
  C8: a freshly constructed Blockchain has a chain of exactly one block, the genesis block,
  with index 1, proof 100, the integer 1 (not a digest string) as previous_hash and no
  transactions; its pending pool is empty.
\<close>

theorem C8_fresh_blockchain:
  "\<exists>s g. init L now = Inr s \<and> chain s = [g] \<and> length (chain s) = 1 \<and> index g = 1
     \<and> proof' g = 100 \<and> previous_hash g = IntVal 1
     \<and> (\<forall>d. previous_hash g \<noteq> StrVal d)
     \<and> transactions g = [] \<and> current_transactions s = [] \<and> nodes s = {}"
  by (simp add: init_eq)

section \<open>The proof of work is the least accepted integer\<close>

lemma take6_iff: "(take 6 xs = ''000000'') = (\<exists>rest. xs = ''000000'' @ rest)"
proof
  assume h: "take 6 xs = ''000000''"
  have "xs = take 6 xs @ drop 6 xs" by simp
  with h have "xs = ''000000'' @ drop 6 xs" by metis
  then show "\<exists>rest. xs = ''000000'' @ rest" ..
next
  assume "\<exists>rest. xs = ''000000'' @ rest"
  then obtain rest where "xs = ''000000'' @ rest" ..
  then show "take 6 xs = ''000000''" by simp
qed

lemma valid_proof_iff:
  "valid_proof L last_proof pf last_hash =
     (\<exists>rest. sha256_hexdigest L (str_int last_proof @ str_int pf @ last_hash) = ''000000'' @ rest)"
  by (simp only: valid_proof_def Let_def take6_iff)

lemma pow_loop_sound:
  assumes "proof_of_work_loop L lp lh k = Some p"
  shows "k \<le> p \<and> valid_proof L lp p lh \<and> (\<forall>q. k \<le> q \<and> q < p \<longrightarrow> \<not> valid_proof L lp q lh)"
proof (rule proof_of_work_loop.raw_induct
    [where P = "\<lambda>L lp lh k p. k \<le> p \<and> valid_proof L lp p lh
                  \<and> (\<forall>q. k \<le> q \<and> q < p \<longrightarrow> \<not> valid_proof L lp q lh)", OF _ assms])
  fix loop :: "pylib \<Rightarrow> int \<Rightarrow> string \<Rightarrow> int \<Rightarrow> int option" and L lp lh k p
  assume ih: "\<And>L lp lh k p. loop L lp lh k = Some p \<Longrightarrow>
                k \<le> p \<and> valid_proof L lp p lh \<and> (\<forall>q. k \<le> q \<and> q < p \<longrightarrow> \<not> valid_proof L lp q lh)"
    and eq: "(if valid_proof L lp k lh = False then loop L lp lh (k + 1) else Some k) = Some p"
  show "k \<le> p \<and> valid_proof L lp p lh \<and> (\<forall>q. k \<le> q \<and> q < p \<longrightarrow> \<not> valid_proof L lp q lh)"
  proof (cases "valid_proof L lp k lh")
    case True
    with eq have "p = k" by simp
    with True show ?thesis by auto
  next
    case False
    with eq have "loop L lp lh (k + 1) = Some p" by simp
    from ih[OF this] have a: "k + 1 \<le> p" and b: "valid_proof L lp p lh"
      and c: "\<forall>q. k + 1 \<le> q \<and> q < p \<longrightarrow> \<not> valid_proof L lp q lh" by auto
    have "\<not> valid_proof L lp q lh" if "k \<le> q" "q < p" for q
    proof (cases "q = k")
      case True with False show ?thesis by simp
    next
      case False
      with that have "k + 1 \<le> q" by simp
      with c that show ?thesis by blast
    qed
    with a b show ?thesis by auto
  qed
qed

lemma pow_loop_complete:
  "k \<le> p \<Longrightarrow> valid_proof L lp p lh \<Longrightarrow> \<exists>p'. proof_of_work_loop L lp lh k = Some p'"
proof (induction "nat (p - k)" arbitrary: k)
  case 0
  then have "k = p" by simp
  with 0 show ?case by (subst proof_of_work_loop.simps) simp
next
  case (Suc n)
  show ?case
  proof (cases "valid_proof L lp k lh")
    case True
    then show ?thesis by (subst proof_of_work_loop.simps) simp
  next
    case False
    from Suc(2,3) have "n = nat (p - (k + 1))" "k + 1 \<le> p" by auto
    from Suc(1)[OF this Suc(4)] obtain p' where "proof_of_work_loop L lp lh (k + 1) = Some p'" ..
    with False show ?thesis by (subst proof_of_work_loop.simps) simp
  qed
qed

lemma pow_loop_iff:
  "proof_of_work_loop L lp lh k = Some p \<longleftrightarrow>
     k \<le> p \<and> valid_proof L lp p lh \<and> (\<forall>q. k \<le> q \<and> q < p \<longrightarrow> \<not> valid_proof L lp q lh)"
proof
  assume "proof_of_work_loop L lp lh k = Some p"
  then show "k \<le> p \<and> valid_proof L lp p lh \<and> (\<forall>q. k \<le> q \<and> q < p \<longrightarrow> \<not> valid_proof L lp q lh)"
    by (rule pow_loop_sound)
next
  assume r: "k \<le> p \<and> valid_proof L lp p lh \<and> (\<forall>q. k \<le> q \<and> q < p \<longrightarrow> \<not> valid_proof L lp q lh)"
  then obtain p' where p': "proof_of_work_loop L lp lh k = Some p'"
    using pow_loop_complete by blast
  from pow_loop_sound[OF this] have s: "k \<le> p'" "valid_proof L lp p' lh"
    "\<forall>q. k \<le> q \<and> q < p' \<longrightarrow> \<not> valid_proof L lp q lh" by auto
  have "\<not> p' < p" using r s by blast
  moreover have "\<not> p < p'" using r s by blast
  ultimately have "p' = p" by simp
  with p' show "proof_of_work_loop L lp lh k = Some p" by simp
qed

lemma proof_of_work_iff:
  "proof_of_work L last_blk = Some p \<longleftrightarrow>
     0 \<le> p \<and> valid_proof L (proof' last_blk) p (hash L last_blk)
     \<and> (\<forall>q. 0 \<le> q \<and> q < p \<longrightarrow> \<not> valid_proof L (proof' last_blk) q (hash L last_blk))"
  by (simp only: proof_of_work_def Let_def pow_loop_iff)

lemma str_int_100: "str_int 100 = ''100''"
  by (simp add: str_int_def str_nat.simps)

lemma str_int_small: "str_int 0 = ''0''" "str_int 1 = ''1''" "str_int 2 = ''2''"
  by (simp_all add: str_int_def str_nat.simps)

lemma hash_genesis: "hash small_lib genesis = ''9f86d081''"
  by (simp add: hash_def small_lib_def genesis_def str_int_small)

lemma valid_proof_genesis:
  "\<not> valid_proof small_lib 100 0 ''9f86d081''"
  "\<not> valid_proof small_lib 100 1 ''9f86d081''"
  "valid_proof small_lib 100 2 ''9f86d081''"
  by (simp_all add: valid_proof_def small_lib_def str_int_100 str_int_small)

lemma below_two: "0 \<le> q \<and> q < 2 \<longrightarrow> q = 0 \<or> q = (1::int)"
  by auto

text \<open>
  C3: valid_proof(last_proof, proof, last_hash) is true exactly when the hex digest of the
  concatenation of the decimal renderings of last_proof and proof and of last_hash begins
  with six characters 0; and proof_of_work(last_block) returns p exactly when p is the
  smallest non-negative integer that valid_proof accepts for last_block's proof and hash, so
  a returned value satisfies valid_proof and is minimal, and the search returns whenever such
  an integer exists.
\<close>

theorem C3_proof_of_work:
  "(valid_proof L last_proof pf last_hash \<longleftrightarrow>
      (\<exists>rest. sha256_hexdigest L (str_int last_proof @ str_int pf @ last_hash) = ''000000'' @ rest))
   \<and> (proof_of_work L last_blk = Some p \<longleftrightarrow>
        0 \<le> p \<and> valid_proof L (proof' last_blk) p (hash L last_blk)
        \<and> (\<forall>q. 0 \<le> q \<and> q < p \<longrightarrow> \<not> valid_proof L (proof' last_blk) q (hash L last_blk)))"
  by (simp only: valid_proof_iff [symmetric] proof_of_work_def Let_def pow_loop_iff)

theorem C3_proof_of_work_witness:
  "proof_of_work small_lib genesis = Some 2
   \<and> valid_proof small_lib 100 2 ''9f86d081''
   \<and> (\<exists>rest. sha256_hexdigest small_lib (str_int 100 @ str_int 2 @ ''9f86d081'') = ''000000'' @ rest)
   \<and> \<not> valid_proof small_lib 100 1 ''9f86d081'' \<and> \<not> valid_proof small_lib 100 0 ''9f86d081''"
proof -
  have g: "proof' genesis = 100" by (simp add: genesis_def)
  have least: "\<forall>q. 0 \<le> q \<and> q < 2 \<longrightarrow> \<not> valid_proof small_lib 100 q ''9f86d081''"
    using below_two valid_proof_genesis by blast
  from C3_proof_of_work [of small_lib 100 2 "''9f86d081''" genesis 2]
  have a: "valid_proof small_lib 100 2 ''9f86d081'' \<longleftrightarrow>
      (\<exists>rest. sha256_hexdigest small_lib (str_int 100 @ str_int 2 @ ''9f86d081'') = ''000000'' @ rest)"
    and b: "proof_of_work small_lib genesis = Some 2 \<longleftrightarrow>
        0 \<le> (2::int) \<and> valid_proof small_lib 100 2 ''9f86d081''
        \<and> (\<forall>q. 0 \<le> q \<and> q < 2 \<longrightarrow> \<not> valid_proof small_lib 100 q ''9f86d081'')"
    by (simp_all only: g hash_genesis)
  from b least valid_proof_genesis(3) have "proof_of_work small_lib genesis = Some 2" by simp
  moreover from a valid_proof_genesis(3)
  have "\<exists>rest. sha256_hexdigest small_lib (str_int 100 @ str_int 2 @ ''9f86d081'') = ''000000'' @ rest"
    by simp
  ultimately show ?thesis using valid_proof_genesis by simp
qed

section \<open>What \<open>valid_chain\<close> accepts\<close>

lemma valid_chain_loop_step:
  "i < length chn \<Longrightarrow>
     valid_chain_loop L chn lb i \<longleftrightarrow> linked L lb (chn ! i) \<and> valid_chain_loop L chn (chn ! i) (i + 1)"
  by (subst valid_chain_loop.simps) (auto simp: linked_def Let_def)

lemma valid_chain_loop_end: "length chn \<le> i \<Longrightarrow> valid_chain_loop L chn lb i"
  by (subst valid_chain_loop.simps) simp

lemma valid_chain_loop_iff:
  "0 < i \<Longrightarrow> i \<le> length chn \<Longrightarrow>
     valid_chain_loop L chn (chn ! (i - 1)) i \<longleftrightarrow>
       (\<forall>j. i \<le> j \<and> j < length chn \<longrightarrow> linked L (chn ! (j - 1)) (chn ! j))"
proof (induction "length chn - i" arbitrary: i)
  case 0
  then show ?case by (auto simp: valid_chain_loop_end)
next
  case (Suc n)
  then have lt: "i < length chn" by simp
  from Suc have "n = length chn - (i + 1)" "0 < i + 1" "i + 1 \<le> length chn" by simp_all
  from Suc(1)[OF this] have ih:
    "valid_chain_loop L chn (chn ! i) (i + 1) \<longleftrightarrow>
       (\<forall>j. i + 1 \<le> j \<and> j < length chn \<longrightarrow> linked L (chn ! (j - 1)) (chn ! j))" by simp
  have "(\<forall>j. i \<le> j \<and> j < length chn \<longrightarrow> linked L (chn ! (j - 1)) (chn ! j)) \<longleftrightarrow>
        linked L (chn ! (i - 1)) (chn ! i)
        \<and> (\<forall>j. i + 1 \<le> j \<and> j < length chn \<longrightarrow> linked L (chn ! (j - 1)) (chn ! j))"
    (is "?A \<longleftrightarrow> ?B \<and> ?C")
  proof
    assume a: ?A
    from a lt have ?B by blast
    moreover from a have ?C by simp
    ultimately show "?B \<and> ?C" ..
  next
    assume bc: "?B \<and> ?C"
    show ?A
    proof (intro allI impI)
      fix j assume j: "i \<le> j \<and> j < length chn"
      show "linked L (chn ! (j - 1)) (chn ! j)"
      proof (cases "j = i")
        case True with bc show ?thesis by simp
      next
        case False
        with j have "i + 1 \<le> j \<and> j < length chn" by simp
        with bc show ?thesis by blast
      qed
    qed
  qed
  with ih valid_chain_loop_step[OF lt, of L "chn ! (i - 1)"] show ?case by simp
qed

lemma valid_chain_iff:
  assumes "chn \<noteq> []"
  shows "valid_chain L chn = Inr (\<forall>i. 1 \<le> i \<and> i < length chn \<longrightarrow> linked L (chn ! (i - 1)) (chn ! i))"
proof -
  from assms obtain b0 rest where c: "chn = b0 # rest" by (cases chn) auto
  then have v: "valid_chain L chn = Inr (valid_chain_loop L chn (chn ! (1 - 1)) 1)"
    by (simp add: valid_chain_def)
  from c have "0 < (1::nat)" "1 \<le> length chn" by simp_all
  from valid_chain_loop_iff[OF this] v show ?thesis by simp
qed


lemma linked_genesis_block1: "linked small_lib genesis block1"
  unfolding linked_def hash_genesis by (simp add: genesis_def block1_def valid_proof_genesis)

lemma not_linked_genesis_genesis: "\<not> linked small_lib genesis genesis"
  by (simp add: linked_def genesis_def)

text \<open>
  C4: on a non-empty chain valid_chain returns a boolean, and it returns true exactly when
  every block at an index i >= 1 stores the hash of the block before it and carries a proof
  that valid_proof accepts for that block's proof and hash. Nothing is asked of block 0, so a
  chain of one block is valid whatever the block; and a failing pair at index i makes the
  result false whatever blocks follow index i.
\<close>

theorem C4_valid_chain:
  "chn \<noteq> [] \<Longrightarrow>
     (valid_chain L chn = Inr True \<longleftrightarrow>
        (\<forall>i. 1 \<le> i \<and> i < length chn \<longrightarrow>
           previous_hash (chn ! i) = StrVal (hash L (chn ! (i - 1)))
           \<and> valid_proof L (proof' (chn ! (i - 1))) (proof' (chn ! i)) (hash L (chn ! (i - 1)))))
     \<and> (valid_chain L chn = Inr True \<or> valid_chain L chn = Inr False)
     \<and> valid_chain L [b] = Inr True
     \<and> (\<forall>i later. 1 \<le> i \<and> i < length chn \<and> \<not> linked L (chn ! (i - 1)) (chn ! i)
          \<longrightarrow> valid_chain L (take (i + 1) chn @ later) = Inr False)"
proof -
  assume ne: "chn \<noteq> []"
  have a: "valid_chain L chn = Inr True \<longleftrightarrow>
        (\<forall>i. 1 \<le> i \<and> i < length chn \<longrightarrow>
           previous_hash (chn ! i) = StrVal (hash L (chn ! (i - 1)))
           \<and> valid_proof L (proof' (chn ! (i - 1))) (proof' (chn ! i)) (hash L (chn ! (i - 1))))"
    by (simp only: valid_chain_iff[OF ne] linked_def) simp
  have b: "valid_chain L chn = Inr True \<or> valid_chain L chn = Inr False"
    by (simp only: valid_chain_iff[OF ne]) auto
  have c: "valid_chain L [b] = Inr True"
    by (simp add: valid_chain_iff)
  have d: "valid_chain L (take (i + 1) chn @ later) = Inr False"
    if h: "1 \<le> i \<and> i < length chn \<and> \<not> linked L (chn ! (i - 1)) (chn ! i)" for i later
  proof -
    let ?c = "take (i + 1) chn @ later"
    from h have ne': "?c \<noteq> []" by auto
    from h have "?c ! i = chn ! i" "?c ! (i - 1) = chn ! (i - 1)" "i < length ?c"
      by (simp_all add: nth_append)
    with h have "\<not> (\<forall>j. 1 \<le> j \<and> j < length ?c \<longrightarrow> linked L (?c ! (j - 1)) (?c ! j))"
      by metis
    with valid_chain_iff[OF ne', of L] show ?thesis by simp
  qed
  from a b c d show ?thesis by blast
qed

theorem C4_valid_chain_witness:
  "[genesis, block1] \<noteq> [] \<and> valid_chain small_lib [genesis, block1] = Inr True
   \<and> valid_chain small_lib [genesis] = Inr True
   \<and> valid_chain small_lib ([genesis, genesis] @ [block1]) = Inr False"
proof -
  have ne: "[genesis, block1] \<noteq> []" "[genesis, genesis] \<noteq> []" by simp_all
  have all1: "\<forall>i. 1 \<le> i \<and> i < length [genesis, block1] \<longrightarrow>
       previous_hash ([genesis, block1] ! i) = StrVal (hash small_lib ([genesis, block1] ! (i - 1)))
       \<and> valid_proof small_lib (proof' ([genesis, block1] ! (i - 1))) (proof' ([genesis, block1] ! i))
           (hash small_lib ([genesis, block1] ! (i - 1)))"
  proof (intro allI impI)
    fix i :: nat assume "1 \<le> i \<and> i < length [genesis, block1]"
    then have "i = 1" by simp
    with linked_genesis_block1 show "previous_hash ([genesis, block1] ! i) = StrVal (hash small_lib ([genesis, block1] ! (i - 1)))
       \<and> valid_proof small_lib (proof' ([genesis, block1] ! (i - 1))) (proof' ([genesis, block1] ! i))
           (hash small_lib ([genesis, block1] ! (i - 1)))"
      by (simp add: linked_def)
  qed
  from C4_valid_chain [OF ne(1), of small_lib genesis] all1
  have a: "valid_chain small_lib [genesis, block1] = Inr True"
    and b: "valid_chain small_lib [genesis] = Inr True" by blast+
  have bad: "1 \<le> (1::nat) \<and> 1 < length [genesis, genesis]
      \<and> \<not> linked small_lib ([genesis, genesis] ! (1 - 1)) ([genesis, genesis] ! 1)"
    using not_linked_genesis_genesis by simp
  from C4_valid_chain [OF ne(2), of small_lib genesis] bad
  have "valid_chain small_lib (take (1 + 1) [genesis, genesis] @ [block1]) = Inr False" by blast
  then have c: "valid_chain small_lib ([genesis, genesis] @ [block1]) = Inr False" by simp
  from a b c show ?thesis by simp
qed

text \<open>
  C10: valid_chain reads chain[0] before its loop: on the empty list it raises IndexError,
  the empty list is the only chain on which it raises, and on every non-empty chain it
  returns a boolean.
\<close>

theorem C10_valid_chain_empty:
  "valid_chain L [] = Inl IndexError
   \<and> (valid_chain L chn = Inl IndexError \<longleftrightarrow> chn = [])
   \<and> (chn \<noteq> [] \<longrightarrow> (\<exists>r. valid_chain L chn = Inr r))"
  by (cases chn) (simp_all add: valid_chain_def)


theorem C10_valid_chain_empty_witness:
  "valid_chain small_lib [] = Inl IndexError \<and> [genesis] \<noteq> []
   \<and> (\<exists>r. valid_chain small_lib [genesis] = Inr r)"
  using C10_valid_chain_empty [of small_lib "[genesis]"] by simp

section \<open>The consensus pass\<close>

lemma offers_iff:
  "offers L get m n c \<longleftrightarrow>
     (\<exists>len. get (peer_url n) = Inr (Response 200 len c) \<and> m < len \<and> valid_chain L c = Inr True)"
  by (auto simp: offers_def split: sum.splits response.splits)

lemma offers_mono: "offers L get m' n c \<Longrightarrow> m \<le> m' \<Longrightarrow> offers L get m n c"
  by (auto simp: offers_iff)

lemma offers_nonempty: "offers L get m n c \<Longrightarrow> c \<noteq> []"
  by (auto simp: offers_iff valid_chain_def)

lemma resolve_loop_skip:
  "get (peer_url node) = Inr resp \<Longrightarrow> status_code resp \<noteq> 200 \<Longrightarrow>
     resolve_loop L get (node # rest) m nc = resolve_loop L get rest m nc"
  by simp

lemma resolve_loop_malformed:
  "get (peer_url node) = Inr (Malformed 200 e) \<Longrightarrow> resolve_loop L get (node # rest) m nc = Inl e"
  by simp

lemma resolve_loop_response:
  "get (peer_url node) = Inr (Response 200 len c) \<Longrightarrow>
     resolve_loop L get (node # rest) m nc =
       (if m < len then
          (case valid_chain L c of
             Inl e \<Rightarrow> Inl e
           | Inr ok \<Rightarrow> if ok then resolve_loop L get rest len (Some c)
                       else resolve_loop L get rest m nc)
        else resolve_loop L get rest m nc)"
  by simp

lemma response_cases:
  obtains (skipped) "status_code resp \<noteq> 200"
    | (malformed) e where "resp = Malformed 200 e"
    | (read) len c where "resp = Response 200 len c"
  by (cases resp) auto

lemma resolve_loop_result:
  "resolve_loop L get ns m nc = Inr (m', nc') \<Longrightarrow>
     (m' = m \<and> nc' = nc \<and> (\<forall>n \<in> set ns. \<forall>c. \<not> offers L get m n c))
     \<or> (\<exists>n \<in> set ns. \<exists>len c. get (peer_url n) = Inr (Response 200 len c)
           \<and> offers L get m n c \<and> nc' = Some c \<and> m' = len)"
proof (induction ns arbitrary: m nc)
  case Nil
  then show ?case by simp
next
  case (Cons node rest)
  from Cons.prems obtain resp where g: "get (peer_url node) = Inr resp"
    by (cases "get (peer_url node)") auto
  show ?case
  proof (cases resp rule: response_cases)
    case skipped
    with g have no: "\<forall>c. \<not> offers L get m node c" by (auto simp: offers_iff)
    from Cons.prems resolve_loop_skip[where get = get and node = node, OF g skipped]
    have "resolve_loop L get rest m nc = Inr (m', nc')" by simp
    from Cons.IH[OF this] no show ?thesis by auto
  next
    case (malformed e)
    with g Cons.prems show ?thesis by simp
  next
    case (read len c)
    with g have g': "get (peer_url node) = Inr (Response 200 len c)" by simp
    note step = resolve_loop_response[where get = get and node = node, OF g', of L rest m nc]
    show ?thesis
    proof (cases "m < len \<and> valid_chain L c = Inr True")
      case False
      with g' have no: "\<forall>c. \<not> offers L get m node c" by (auto simp: offers_iff)
      from False step Cons.prems have "resolve_loop L get rest m nc = Inr (m', nc')"
        by (auto split: if_splits sum.splits)
      from Cons.IH[OF this] no show ?thesis by auto
    next
      case True
      with g' have off: "offers L get m node c" by (auto simp: offers_iff)
      from True step Cons.prems have "resolve_loop L get rest len (Some c) = Inr (m', nc')"
        by simp
      from Cons.IH[OF this] show ?thesis
      proof
        assume "m' = len \<and> nc' = Some c \<and> (\<forall>n\<in>set rest. \<forall>c. \<not> offers L get len n c)"
        with off g' show ?thesis by auto
      next
        assume "\<exists>n\<in>set rest. \<exists>l d. get (peer_url n) = Inr (Response 200 l d)
           \<and> offers L get len n d \<and> nc' = Some d \<and> m' = l"
        then obtain n l d where n: "n \<in> set rest" "get (peer_url n) = Inr (Response 200 l d)"
          "offers L get len n d" "nc' = Some d" "m' = l" by blast
        from True offers_mono[OF n(3), of m] have "offers L get m n d" by simp
        with n show ?thesis by auto
      qed
    qed
  qed
qed





lemma resolve_conflicts_result:
  assumes "resolve_conflicts L get ns s = Inr (replaced, s')"
  shows "(replaced \<longleftrightarrow> (\<exists>n \<in> set ns. \<exists>c. offers L get (int (length (chain s))) n c))
     \<and> (replaced \<longrightarrow> (\<exists>n \<in> set ns. \<exists>c. offers L get (int (length (chain s))) n c \<and> s' = s\<lparr>chain := c\<rparr>))
     \<and> (\<not> replaced \<longrightarrow> s' = s)"
proof -
  from assms obtain m' nc' where l: "resolve_loop L get ns (int (length (chain s))) None = Inr (m', nc')"
    by (cases "resolve_loop L get ns (int (length (chain s))) None") (auto simp: resolve_conflicts_def)
  from resolve_loop_result[OF l] show ?thesis
  proof
    assume "m' = int (length (chain s)) \<and> nc' = None
        \<and> (\<forall>n\<in>set ns. \<forall>c. \<not> offers L get (int (length (chain s))) n c)"
    with assms l show ?thesis by (auto simp: resolve_conflicts_def)
  next
    assume "\<exists>n\<in>set ns. \<exists>len c. get (peer_url n) = Inr (Response 200 len c)
        \<and> offers L get (int (length (chain s))) n c \<and> nc' = Some c \<and> m' = len"
    then obtain n c where n: "n \<in> set ns" "offers L get (int (length (chain s))) n c" "nc' = Some c"
      by blast
    from n(2) have "c \<noteq> []" by (rule offers_nonempty)
    with assms l n show ?thesis by (auto simp: resolve_conflicts_def)
  qed
qed





lemma resolve_conflicts_single:
  "get (peer_url n) = Inr (Response 200 len c) \<Longrightarrow> int (length (chain s)) < len \<Longrightarrow>
     valid_chain L c = Inr True \<Longrightarrow> resolve_conflicts L get [n] s = Inr (True, s\<lparr>chain := c\<rparr>)"
  by (auto simp: resolve_conflicts_def valid_chain_def)

lemma resolve_conflicts_malformed:
  "get (peer_url n) = Inr (Malformed 200 e) \<Longrightarrow> resolve_conflicts L get (n # rest) s = Inl e"
  by (simp add: resolve_conflicts_def)

lemma resolve_keyless: "resolve_conflicts small_lib keyless_peer [''a''] node0 = Inl KeyError"
  by (rule resolve_conflicts_malformed) (simp add: keyless_peer_def)


lemma valid_chain_one: "valid_chain L [b] = Inr True"
  by (simp add: valid_chain_iff)


lemma node_lengths: "int (length (chain node0)) = 1" "int (length (chain node1)) = 2"
  by (simp_all add: node0_def node1_def)









section \<open>Blocks, transactions and mining\<close>

lemma new_block_eq:
  "truthy prev \<or> chain s \<noteq> [] \<Longrightarrow>
     new_block L now pf prev s =
       Inr (\<lparr>index = int (length (chain s)) + 1, timestamp = now,
              transactions = current_transactions s, proof' = pf,
              previous_hash = (if truthy prev then prev else StrVal (hash L (last (chain s))))\<rparr>,
            s\<lparr>current_transactions := [],
              chain := chain s @ [\<lparr>index = int (length (chain s)) + 1, timestamp = now,
                transactions = current_transactions s, proof' = pf,
                previous_hash = (if truthy prev then prev else StrVal (hash L (last (chain s))))\<rparr>]\<rparr>)"
  by (auto simp: new_block_def last_block_def Let_def)

lemma new_block_raises:
  "\<not> truthy prev \<Longrightarrow> chain s = [] \<Longrightarrow> new_block L now pf prev s = Inl IndexError"
  by (simp add: new_block_def last_block_def)

lemma new_transaction_eq:
  "chain s \<noteq> [] \<Longrightarrow>
     new_transaction sndr rcpt amt s =
       (Inr (index (last (chain s)) + 1),
        s\<lparr>current_transactions :=
             current_transactions s @ [\<lparr>sender = sndr, recipient = rcpt, amount = amt\<rparr>]\<rparr>)"
  by (simp add: new_transaction_def last_block_def Let_def)

lemma new_transaction_chain: "chain (snd (new_transaction sndr rcpt amt s)) = chain s"
  by (simp add: new_transaction_def last_block_def Let_def split: sum.splits)

lemma new_transaction_pool:
  "current_transactions (snd (new_transaction sndr rcpt amt s)) =
     current_transactions s @ [\<lparr>sender = sndr, recipient = rcpt, amount = amt\<rparr>]"
  by (simp add: new_transaction_def last_block_def Let_def split: sum.splits)

lemma mine_eq:
  assumes ne: "chain s \<noteq> []" and pw: "proof_of_work L (last (chain s)) = Some p"
  shows "mine L node_identifier now s =
     Some (Inr (\<lparr>index = int (length (chain s)) + 1, timestamp = now,
              transactions = current_transactions s
                @ [\<lparr>sender = ''0'', recipient = node_identifier, amount = 1\<rparr>],
              proof' = p, previous_hash = StrVal (hash L (last (chain s)))\<rparr>,
            s\<lparr>current_transactions := [],
              chain := chain s @ [\<lparr>index = int (length (chain s)) + 1, timestamp = now,
                transactions = current_transactions s
                  @ [\<lparr>sender = ''0'', recipient = node_identifier, amount = 1\<rparr>],
                proof' = p, previous_hash = StrVal (hash L (last (chain s)))\<rparr>]\<rparr>))"
proof -
  let ?s1 = "s\<lparr>current_transactions := current_transactions s
                 @ [\<lparr>sender = ''0'', recipient = node_identifier, amount = 1\<rparr>]\<rparr>"
  have s1: "chain ?s1 \<noteq> []" using ne by simp
  have "mine L node_identifier now s = Some (new_block L now p (StrVal (hash L (last (chain s)))) ?s1)"
    using ne pw by (simp add: mine_def last_block_def new_transaction_eq)
  also have "new_block L now p (StrVal (hash L (last (chain s)))) ?s1 = Inr (\<lparr>index = int (length (chain s)) + 1, timestamp = now,
              transactions = current_transactions s
                @ [\<lparr>sender = ''0'', recipient = node_identifier, amount = 1\<rparr>],
              proof' = p, previous_hash = StrVal (hash L (last (chain s)))\<rparr>,
            s\<lparr>current_transactions := [],
              chain := chain s @ [\<lparr>index = int (length (chain s)) + 1, timestamp = now,
                transactions = current_transactions s
                  @ [\<lparr>sender = ''0'', recipient = node_identifier, amount = 1\<rparr>],
                proof' = p, previous_hash = StrVal (hash L (last (chain s)))\<rparr>]\<rparr>)"
    using s1 by (subst new_block_eq) auto
  finally show ?thesis .
qed

lemma mine_cases:
  assumes "mine L node_identifier now s = Some (Inr (b, s'))"
  shows "chain s \<noteq> [] \<and> (\<exists>p. proof_of_work L (last (chain s)) = Some p \<and> proof' b = p)
         \<and> previous_hash b = StrVal (hash L (last (chain s))) \<and> chain s' = chain s @ [b]"
proof -
  from assms have ne: "chain s \<noteq> []"
    by (auto simp: mine_def last_block_def split: if_splits)
  from assms ne obtain p where pw: "proof_of_work L (last (chain s)) = Some p"
    by (cases "proof_of_work L (last (chain s))") (auto simp: mine_def last_block_def)
  from mine_eq[OF ne pw, of node_identifier now] assms ne pw show ?thesis by auto
qed

lemma mine_diverges:
  "chain s \<noteq> [] \<Longrightarrow> proof_of_work L (last (chain s)) = None \<Longrightarrow> mine L node_identifier now s = None"
  by (simp add: mine_def last_block_def)

lemma pow_genesis: "proof_of_work small_lib genesis = Some 2"
proof -
  have "\<forall>q. 0 \<le> q \<and> q < 2 \<longrightarrow> \<not> valid_proof small_lib 100 q ''9f86d081''"
    using below_two valid_proof_genesis by blast
  moreover have "proof' genesis = 100" by (simp add: genesis_def)
  ultimately show ?thesis
    by (simp only: proof_of_work_iff hash_genesis) (simp add: valid_proof_genesis)
qed

lemma node0_facts:
  "chain node0 \<noteq> []" "last (chain node0) = genesis" "current_transactions node0 = []"
  "length (chain node0) = 1"
  by (simp_all add: node0_def)

lemma mine_node0: "mine small_lib ''n0'' 0 node0 = Some (Inr (block1, node1))"
proof -
  have "proof_of_work small_lib (last (chain node0)) = Some 2"
    by (simp only: node0_facts pow_genesis)
  from mine_eq[OF node0_facts(1) this, of "''n0''" 0] show ?thesis
    by (simp add: node0_facts hash_genesis) (simp add: node0_def node1_def block1_def)
qed

lemma init_node0: "init L 0 = Inr node0"
  by (simp add: init_eq node0_def genesis_def)

lemma reachable_node0: "reachable small_lib node0"
  by (rule reachable.created[OF init_node0])

lemma reachable_node1: "reachable small_lib node1"
  by (rule reachable.mined[OF reachable_node0 mine_node0])

text \<open>
  C5 as stated fails for a given value that is falsy: new_block with the empty string as
  previous_hash stores the hash of the last block, not the given value.
\<close>

theorem C5_counterexample:
  "new_block small_lib 0 7 (StrVal '''') node0 =
     Inr (\<lparr>index = 2, timestamp = 0, transactions = [], proof' = 7,
            previous_hash = StrVal ''9f86d081''\<rparr>,
          \<lparr>chain = [genesis, \<lparr>index = 2, timestamp = 0, transactions = [], proof' = 7,
                               previous_hash = StrVal ''9f86d081''\<rparr>],
            current_transactions = [], nodes = {}\<rparr>)
   \<and> StrVal ''9f86d081'' \<noteq> StrVal ''''"
proof -
  have "chain node0 \<noteq> []" "last (chain node0) = genesis" by (simp_all add: node0_def)
  then show ?thesis
    by (simp add: new_block_eq hash_genesis) (simp add: node0_def)
qed

text \<open>
  C5, amended: on a ledger with at least one block, or with a truthy previous_hash,
  new_block(proof, previous_hash) appends a block whose index is len(chain)+1, whose
  transactions are the whole pending pool in submission order, whose proof is the given
  proof, and whose previous_hash is the given value when that value is truthy and
  hash(last_block) when it is omitted or falsy (None, the empty string, 0); the same call
  empties the pool. So after three submissions to an empty pool, the mine-then-commit
  sequence, when its proof search returns, yields a block holding those three transactions
  followed by the one reward transaction from sender "0" of amount 1, and an empty pool.
\<close>

theorem C5_new_block:
  "(truthy prev \<or> chain s \<noteq> [] \<longrightarrow>
      (\<exists>b. new_block L now pf prev s
              = Inr (b, s\<lparr>current_transactions := [], chain := chain s @ [b]\<rparr>)
         \<and> index b = int (length (chain s)) + 1
         \<and> transactions b = current_transactions s
         \<and> proof' b = pf
         \<and> previous_hash b = (if truthy prev then prev else StrVal (hash L (last (chain s))))))
   \<and> (chain s \<noteq> [] \<and> current_transactions s = [] \<and> proof_of_work L (last (chain s)) = Some p \<longrightarrow>
        (\<exists>b s'. mine L node_identifier now
                   (snd (new_transaction xc yc zc
                     (snd (new_transaction xb yb zb
                       (snd (new_transaction xa ya za s))))))
                 = Some (Inr (b, s'))
           \<and> transactions b = [\<lparr>sender = xa, recipient = ya, amount = za\<rparr>,
                                 \<lparr>sender = xb, recipient = yb, amount = zb\<rparr>,
                                 \<lparr>sender = xc, recipient = yc, amount = zc\<rparr>,
                                 \<lparr>sender = ''0'', recipient = node_identifier, amount = 1\<rparr>]
           \<and> proof' b = p
           \<and> previous_hash b = StrVal (hash L (last (chain s)))
           \<and> chain s' = chain s @ [b]
           \<and> current_transactions s' = []))"
proof -
  let ?s3 = "snd (new_transaction xc yc zc (snd (new_transaction xb yb zb
                       (snd (new_transaction xa ya za s)))))"
  have c3: "chain ?s3 = chain s" by (simp add: new_transaction_chain)
  have "\<exists>b s'. mine L node_identifier now ?s3 = Some (Inr (b, s'))
           \<and> transactions b = [\<lparr>sender = xa, recipient = ya, amount = za\<rparr>,
                                 \<lparr>sender = xb, recipient = yb, amount = zb\<rparr>,
                                 \<lparr>sender = xc, recipient = yc, amount = zc\<rparr>,
                                 \<lparr>sender = ''0'', recipient = node_identifier, amount = 1\<rparr>]
           \<and> proof' b = p
           \<and> previous_hash b = StrVal (hash L (last (chain s)))
           \<and> chain s' = chain s @ [b]
           \<and> current_transactions s' = []"
    if h: "chain s \<noteq> [] \<and> current_transactions s = [] \<and> proof_of_work L (last (chain s)) = Some p"
  proof -
    from h c3 have ne: "chain ?s3 \<noteq> []" and pw: "proof_of_work L (last (chain ?s3)) = Some p"
      by simp_all
    from h have pool: "current_transactions ?s3 = [\<lparr>sender = xa, recipient = ya, amount = za\<rparr>,
                                 \<lparr>sender = xb, recipient = yb, amount = zb\<rparr>,
                                 \<lparr>sender = xc, recipient = yc, amount = zc\<rparr>]"
      by (simp add: new_transaction_pool)
    show ?thesis
      by (subst mine_eq[OF ne pw]) (simp add: pool c3)
  qed
  moreover have "truthy prev \<or> chain s \<noteq> [] \<longrightarrow>
      (\<exists>b. new_block L now pf prev s
              = Inr (b, s\<lparr>current_transactions := [], chain := chain s @ [b]\<rparr>)
         \<and> index b = int (length (chain s)) + 1
         \<and> transactions b = current_transactions s
         \<and> proof' b = pf
         \<and> previous_hash b = (if truthy prev then prev else StrVal (hash L (last (chain s)))))"
    by (auto simp: new_block_eq simp del: truthy.simps)
  ultimately show ?thesis by blast
qed


theorem C5_new_block_witness:
  "(\<exists>b. new_block small_lib 0 7 (StrVal ''abc'') node0
           = Inr (b, node0\<lparr>current_transactions := [], chain := chain node0 @ [b]\<rparr>)
        \<and> index b = 2 \<and> proof' b = 7 \<and> previous_hash b = StrVal ''abc'')
   \<and> (\<exists>b s'. mine small_lib ''n0'' 0
                 (snd (new_transaction ''e'' ''f'' 3
                   (snd (new_transaction ''c'' ''d'' 2
                     (snd (new_transaction ''a'' ''b'' 1 node0))))))
               = Some (Inr (b, s'))
         \<and> transactions b = [\<lparr>sender = ''a'', recipient = ''b'', amount = 1\<rparr>,
                               \<lparr>sender = ''c'', recipient = ''d'', amount = 2\<rparr>,
                               \<lparr>sender = ''e'', recipient = ''f'', amount = 3\<rparr>,
                               \<lparr>sender = ''0'', recipient = ''n0'', amount = 1\<rparr>]
         \<and> current_transactions s' = [])"
proof -
  have h1: "truthy (StrVal ''abc'') \<or> chain node0 \<noteq> []" by simp
  have h2: "chain node0 \<noteq> [] \<and> current_transactions node0 = []
      \<and> proof_of_work small_lib (last (chain node0)) = Some 2"
    by (simp add: node0_facts pow_genesis)
  from C5_new_block [where prev = "StrVal ''abc''" and s = node0 and L = small_lib and now = 0
      and pf = 7 and p = 2 and node_identifier = "''n0''"
      and xa = "''a''" and ya = "''b''" and za = 1
      and xb = "''c''" and yb = "''d''" and zb = 2
      and xc = "''e''" and yc = "''f''" and zc = 3] h1 h2
  show ?thesis by (simp add: node0_facts) blast
qed

section \<open>The chain of a reachable ledger is linked\<close>

lemma valid_chain_snoc:
  assumes v: "valid_chain L chn = Inr True" and l: "linked L (last chn) b"
  shows "valid_chain L (chn @ [b]) = Inr True"
proof -
  from v have ne: "chn \<noteq> []" by (auto simp: valid_chain_def)
  from v valid_chain_iff[OF ne, of L]
  have all: "\<forall>i. 1 \<le> i \<and> i < length chn \<longrightarrow> linked L (chn ! (i - 1)) (chn ! i)" by simp
  have "linked L ((chn @ [b]) ! (i - 1)) ((chn @ [b]) ! i)"
    if i: "1 \<le> i \<and> i < length (chn @ [b])" for i
  proof (cases "i < length chn")
    case True
    then have "i - 1 < length chn" by simp
    with True i all show ?thesis by (simp add: nth_append)
  next
    case False
    with i have e: "i = length chn" by simp
    with ne have "(chn @ [b]) ! (i - 1) = last chn" "(chn @ [b]) ! i = b"
      by (simp_all add: nth_append last_conv_nth)
    with l show ?thesis by simp
  qed
  with valid_chain_iff[of "chn @ [b]" L] show ?thesis by simp
qed

lemma register_node_chain: "register_node L address s = Inr s' \<Longrightarrow> chain s' = chain s"
  by (auto simp: register_node_def split: sum.splits if_splits)

lemma offers_valid: "offers L get m n c \<Longrightarrow> valid_chain L c = Inr True"
  by (auto simp: offers_iff)

lemma reachable_valid: "reachable L s \<Longrightarrow> valid_chain L (chain s) = Inr True"
proof (induction rule: reachable.induct)
  case (created now s)
  then show ?case by (auto simp: init_eq valid_chain_one)
next
  case (submitted s sndr rcpt amt r s')
  from submitted(2) have "s' = snd (new_transaction sndr rcpt amt s)" by simp
  with submitted(3) show ?case by (simp add: new_transaction_chain)
next
  case (mined s node_identifier now b s')
  from mine_cases[OF mined(2)] obtain p where
    m: "proof_of_work L (last (chain s)) = Some p" "proof' b = p"
       "previous_hash b = StrVal (hash L (last (chain s)))" "chain s' = chain s @ [b]" by blast
  from m(1) have "valid_proof L (proof' (last (chain s))) p (hash L (last (chain s)))"
    by (simp add: proof_of_work_iff)
  with m have "linked L (last (chain s)) b" by (simp add: linked_def)
  from valid_chain_snoc[OF mined(3) this] m(4) show ?case by simp
next
  case (registered s address s')
  then show ?case by (simp add: register_node_chain)
next
  case (resolved s neighbours get replaced s')
  show ?case
  proof (cases replaced)
    case True
    with resolve_conflicts_result[OF resolved(4)] obtain n c
      where "offers L get (int (length (chain s))) n c" "s' = s\<lparr>chain := c\<rparr>" by blast
    then show ?thesis by (simp add: offers_valid)
  next
    case False
    with resolve_conflicts_result[OF resolved(4)] resolved(5) show ?thesis by simp
  qed
qed

text \<open>
  C2: in every ledger reachable from a fresh Blockchain by submitting transactions, mining
  and committing blocks, registering peers and consensus passes, every block at an index
  i > 0 stores the hash of the block before it, and valid_proof accepts its proof for the
  proof and the hash of the block before it.
\<close>

theorem C2_chain_invariant:
  "reachable L s \<Longrightarrow> 0 < i \<Longrightarrow> i < length (chain s) \<Longrightarrow>
     previous_hash (chain s ! i) = StrVal (hash L (chain s ! (i - 1)))
     \<and> valid_proof L (proof' (chain s ! (i - 1))) (proof' (chain s ! i)) (hash L (chain s ! (i - 1)))"
proof -
  assume r: "reachable L s" and i: "0 < i" "i < length (chain s)"
  from reachable_valid[OF r] have v: "valid_chain L (chain s) = Inr True" .
  then have ne: "chain s \<noteq> []" by (auto simp: valid_chain_def)
  from v valid_chain_iff[OF ne, of L] i have "linked L (chain s ! (i - 1)) (chain s ! i)" by simp
  then show ?thesis by (simp add: linked_def)
qed

theorem C2_chain_invariant_witness:
  "reachable small_lib node1 \<and> 0 < (1::nat) \<and> 1 < length (chain node1)
   \<and> previous_hash (chain node1 ! 1) = StrVal (hash small_lib (chain node1 ! (1 - 1)))
   \<and> valid_proof small_lib (proof' (chain node1 ! (1 - 1))) (proof' (chain node1 ! 1))
        (hash small_lib (chain node1 ! (1 - 1)))"
proof -
  have l: "0 < (1::nat)" "1 < length (chain node1)" by (simp_all add: node1_def)
  from C2_chain_invariant [OF reachable_node1 l] reachable_node1 l show ?thesis by simp
qed

section \<open>Reported length and received chain\<close>

text \<open>
  C9: resolve_conflicts compares the reported length only, never the number of blocks
  received: a single peer whose response of status 200 reports a length above the local
  chain length with a chain that valid_chain accepts replaces the local chain, whatever the
  number of blocks in it; and for every ledger of two or more blocks there is such a response
  whose chain is strictly shorter than the local one, adopted with result true.
\<close>

theorem C9_reported_length:
  "(get (peer_url n) = Inr (Response 200 len c) \<and> int (length (chain s)) < len
      \<and> valid_chain L c = Inr True
      \<longrightarrow> resolve_conflicts L get [n] s = Inr (True, s\<lparr>chain := c\<rparr>))
   \<and> (2 \<le> length (chain s) \<longrightarrow>
        (\<exists>get len c. get (peer_url n) = Inr (Response 200 len c) \<and> int (length (chain s)) < len
           \<and> valid_chain L c = Inr True \<and> length c < length (chain s)
           \<and> resolve_conflicts L get [n] s = Inr (True, s\<lparr>chain := c\<rparr>)))"
proof -
  have a: "get (peer_url n) = Inr (Response 200 len c) \<and> int (length (chain s)) < len
      \<and> valid_chain L c = Inr True
      \<longrightarrow> resolve_conflicts L get [n] s = Inr (True, s\<lparr>chain := c\<rparr>)" for get len c
    using resolve_conflicts_single[of get n len c s L] by blast
  have "\<exists>get len c. get (peer_url n) = Inr (Response 200 len c) \<and> int (length (chain s)) < len
           \<and> valid_chain L c = Inr True \<and> length c < length (chain s)
           \<and> resolve_conflicts L get [n] s = Inr (True, s\<lparr>chain := c\<rparr>)"
    if two: "2 \<le> length (chain s)"
  proof -
    let ?c = "[hd (chain s)]"
    let ?len = "int (length (chain s)) + 1"
    let ?get = "\<lambda>u::string. (Inr (Response 200 ?len ?c) :: error + response)"
    have r: "resolve_conflicts L ?get [n] s = Inr (True, s\<lparr>chain := ?c\<rparr>)"
      by (rule resolve_conflicts_single[where len = ?len]) (simp_all add: valid_chain_one)
    have "?get (peer_url n) = Inr (Response 200 ?len ?c) \<and> int (length (chain s)) < ?len
           \<and> valid_chain L ?c = Inr True \<and> length ?c < length (chain s)
           \<and> resolve_conflicts L ?get [n] s = Inr (True, s\<lparr>chain := ?c\<rparr>)"
      using two r by (simp add: valid_chain_one)
    then show ?thesis
      by (intro exI[where x = ?get] exI[where x = ?len] exI[where x = ?c])
  qed
  with a[of get len c] show ?thesis by blast
qed

theorem C9_reported_length_witness:
  "reachable small_lib node1
   \<and> overstating_peer (peer_url ''p'') = Inr (Response 200 5 [genesis])
   \<and> int (length (chain node1)) < 5
   \<and> valid_chain small_lib [genesis] = Inr True
   \<and> length [genesis] < length (chain node1)
   \<and> resolve_conflicts small_lib overstating_peer [''p''] node1
       = Inr (True, node1\<lparr>chain := [genesis]\<rparr>)"
proof -
  have h: "overstating_peer (peer_url ''p'') = Inr (Response 200 5 [genesis])
      \<and> int (length (chain node1)) < 5 \<and> valid_chain small_lib [genesis] = Inr True"
    by (simp add: overstating_peer_def node_lengths valid_chain_one)
  have "length [genesis] < length (chain node1)" by (simp add: node1_def)
  with C9_reported_length [of overstating_peer "''p''" 5 "[genesis]" node1 small_lib] h
    reachable_node1
  show ?thesis by blast
qed

section \<open>Registered peers\<close>













end
